theory Spec2Isabelle
  imports Main "HOL-Library.Sublist"
begin

section \<open>The storefront component \<open>App\<close> of \<open>src/App.jsx\<close>\<close>

text \<open>
  The component keeps five pieces of React state (\<open>items\<close>, \<open>loading\<close>, \<open>query\<close>,
  \<open>category\<close>, \<open>error\<close>), derives the category chips from \<open>items\<close>, fetches the
  product list from the backend and renders one of several views. Strings are byte
  strings (the UTF-8 form of the JavaScript strings).
\<close>

subsection \<open>Data\<close>

text \<open>
  A product as the component reads it. Only \<open>category\<close> takes part in a computation;
  it is a string, or \<open>None\<close> when it is \<open>undefined\<close> or \<open>null\<close> in the response.
\<close>

record product =
  item_id :: string
  item_title :: string
  item_category :: "string option"

text \<open>
  The argument of \<open>fetchProducts\<close>: \<open>opts = {}\<close> leaves both fields \<open>undefined\<close>
  (\<open>None\<close>), the debounce effect passes the two state strings.
\<close>

record opts =
  opt_category :: "string option"
  opt_q :: "string option"

text \<open>JavaScript truthiness of a value that is a string or \<open>undefined\<close>.\<close>

definition Boolean :: "string option \<Rightarrow> bool" where
  "Boolean v = (case v of None \<Rightarrow> False | Some s \<Rightarrow> s \<noteq> [])"

subsection \<open>Category derivation (the \<open>categories\<close> memo)\<close>

text \<open>
  A JavaScript \<open>Set\<close> iterates in insertion order, and \<open>add\<close> of a value already
  present changes nothing; it is modelled by the list of its elements in that order.
\<close>

definition Set_add :: "'a list \<Rightarrow> 'a \<Rightarrow> 'a list" where
  "Set_add s x = (if x \<in> set s then s else s @ [x])"

definition new_Set :: "'a list \<Rightarrow> 'a list" where
  "new_Set xs = foldl Set_add [] xs"

definition Array_from :: "'a list \<Rightarrow> 'a list" where
  "Array_from s = s"

definition categories :: "product list \<Rightarrow> string option list" where
  "categories its = Array_from (new_Set (filter Boolean (map item_category its)))"

text \<open>
  The derivation in the words of the specification: the first occurrence of every value
  is kept, in the order of the first occurrences.
\<close>

fun first_seen :: "'a list \<Rightarrow> 'a list" where
  "first_seen [] = []"
| "first_seen (x # xs) = x # first_seen (filter (\<lambda>y. y \<noteq> x) xs)"

subsection \<open>The request of \<open>fetchProducts\<close>\<close>

text \<open>
  \<open>API_BASE\<close> is the build-time variable \<open>VITE_BACKEND_URL\<close> when that is truthy and the
  local address otherwise.
\<close>

definition API_BASE :: "string option \<Rightarrow> string" where
  "API_BASE env =
     (case env of Some u \<Rightarrow> if u \<noteq> [] then u else ''http://localhost:8000''
      | None \<Rightarrow> ''http://localhost:8000'')"

text \<open>
  \<open>URLSearchParams\<close>: an ordered list of name-value pairs; \<open>append\<close> adds at the end;
  \<open>toString\<close> is the \<open>application/x-www-form-urlencoded\<close> serialiser, which keeps
  ASCII letters, digits and \<open>*-._\<close>, writes a space as \<open>+\<close> and every other byte as
  \<open>%\<close> and two upper-case hexadecimal digits.
\<close>

type_synonym URLSearchParams = "(string \<times> string) list"

definition params_append :: "URLSearchParams \<Rightarrow> string \<Rightarrow> string \<Rightarrow> URLSearchParams" where
  "params_append ps k v = ps @ [(k, v)]"

definition hex_digit :: "nat \<Rightarrow> char" where
  "hex_digit n = ''0123456789ABCDEF'' ! (n mod 16)"

definition form_keep :: "char \<Rightarrow> bool" where
  "form_keep c =
     (let n = (of_char c :: nat)
      in (48 \<le> n \<and> n \<le> 57) \<or> (65 \<le> n \<and> n \<le> 90) \<or> (97 \<le> n \<and> n \<le> 122)
         \<or> n = 42 \<or> n = 45 \<or> n = 46 \<or> n = 95)"

definition form_byte :: "char \<Rightarrow> string" where
  "form_byte c =
     (if form_keep c then [c]
      else if (of_char c :: nat) = 32 then ''+''
      else [CHR ''%'', hex_digit ((of_char c :: nat) div 16), hex_digit (of_char c)])"

definition form_encode :: "string \<Rightarrow> string" where
  "form_encode s = concat (map form_byte s)"

fun join_amp :: "string list \<Rightarrow> string" where
  "join_amp [] = []"
| "join_amp [p] = p"
| "join_amp (p # ps) = p @ ''&'' @ join_amp ps"

definition toString :: "URLSearchParams \<Rightarrow> string" where
  "toString ps = join_amp (map (\<lambda>(k, v). form_encode k @ ''='' @ form_encode v) ps)"

text \<open>Lines 85 to 87: \<open>category\<close> is appended first, then \<open>q\<close>, each only when truthy.\<close>

definition build_params :: "opts \<Rightarrow> URLSearchParams" where
  "build_params op =
     (let params = [];
          params = (case opt_category op of
                      Some c \<Rightarrow> if c \<noteq> [] then params_append params ''category'' c else params
                    | None \<Rightarrow> params);
          params = (case opt_q op of
                      Some t \<Rightarrow> if t \<noteq> [] then params_append params ''q'' t else params
                    | None \<Rightarrow> params)
      in params)"

definition products_url :: "string \<Rightarrow> opts \<Rightarrow> string" where
  "products_url base op = base @ ''/api/products?'' @ toString (build_params op)"

definition seed_url :: "string \<Rightarrow> string" where
  "seed_url base = base @ ''/api/seed''"

subsection \<open>Responses\<close>

text \<open>
  What the backend can answer to a request. \<open>fetch\<close> rejects (\<open>NetworkError\<close>) or
  resolves with a response of some HTTP status. \<open>res.json()\<close> then rejects
  (\<open>Unparseable\<close>) or resolves with the parsed value: \<open>null\<close>, or a value whose
  \<open>items\<close> property is absent or falsy (\<open>JsonValue None\<close>) or an array of products.
  An \<open>items\<close> property that is truthy and not an array of products is outside this
  type, as it is outside the interface of the backend.
\<close>

datatype body = Unparseable | JsonNull | JsonValue "product list option"

datatype response = NetworkError | Response nat body

datatype js_error = FailedToFetch | SyntaxError | TypeError

text \<open>
  The three statements of the \<open>try\<close> block after the request is sent (lines 88 to 90):
  each may throw, and reading \<open>items\<close> of \<open>null\<close> throws a \<open>TypeError\<close>. The
  status of the response is never read.
\<close>

definition try_block :: "response \<Rightarrow> js_error + product list" where
  "try_block r =
     (case r of
        NetworkError \<Rightarrow> Inl FailedToFetch
      | Response status b \<Rightarrow>
          (case b of
             Unparseable \<Rightarrow> Inl SyntaxError
           | JsonNull \<Rightarrow> Inl TypeError
           | JsonValue its \<Rightarrow> Inr (case its of Some xs \<Rightarrow> xs | None \<Rightarrow> [])))"

subsection \<open>State and effects\<close>

datatype request = POST string | GET string

text \<open>
  The five state variables of the component, and around them what the browser holds for
  it: the clock (milliseconds since mount), the pending debounce timeout (its deadline
  and the \<open>opts\<close> its closure captured), every request sent so far, the indices of the
  requests not yet settled, and what was written with \<open>console.error\<close>.
\<close>

record app =
  items :: "product list"
  loading :: bool
  query :: string
  category :: string
  error :: string
  now :: nat
  timer :: "(nat \<times> opts) option"
  requests :: "request list"
  inflight :: "nat list"
  console :: "js_error list"

datatype effect =
    SetItems "product list"
  | SetLoading bool
  | SetError string
  | ConsoleError js_error

fun apply_effect :: "app \<Rightarrow> effect \<Rightarrow> app" where
  "apply_effect s (SetItems xs) = s\<lparr>items := xs\<rparr>"
| "apply_effect s (SetLoading b) = s\<lparr>loading := b\<rparr>"
| "apply_effect s (SetError e) = s\<lparr>error := e\<rparr>"
| "apply_effect s (ConsoleError e) = s\<lparr>console := console s @ [e]\<rparr>"

definition apply_effects :: "effect list \<Rightarrow> app \<Rightarrow> app" where
  "apply_effects es s = foldl apply_effect s es"

subsection \<open>\<open>fetchProducts\<close>\<close>

text \<open>
  The function runs in two parts. Up to the first \<open>await\<close> it sets \<open>loading\<close>, clears
  \<open>error\<close> and sends the request. When the request settles it runs the rest of the
  \<open>try\<close> block or the \<open>catch\<close> block, and then the \<open>finally\<close> block.
\<close>

definition fetchProducts_begin :: "effect list" where
  "fetchProducts_begin = [SetLoading True, SetError []]"

definition fetchProducts_settle :: "response \<Rightarrow> effect list" where
  "fetchProducts_settle r =
     (case try_block r of
        Inr xs \<Rightarrow> [SetItems xs]
      | Inl e \<Rightarrow> [ConsoleError e, SetError ''Failed to load products''])
     @ [SetLoading False]"

definition fetchProducts :: "string \<Rightarrow> opts \<Rightarrow> app \<Rightarrow> app" where
  "fetchProducts base op s =
     (let s = apply_effects fetchProducts_begin s
      in s\<lparr>requests := requests s @ [GET (products_url base op)],
            inflight := inflight s @ [length (requests s)]\<rparr>)"

subsection \<open>The two effects and the event loop\<close>

text \<open>
  Mounting renders the initial state and runs both effects: the seed request is sent,
  and the debounce timeout is set with the initial \<open>category\<close> and \<open>query\<close>.
\<close>

definition debounce :: "app \<Rightarrow> app" where
  "debounce s =
     s\<lparr>timer := Some (now s + 300, \<lparr>opt_category = Some (category s), opt_q = Some (query s)\<rparr>)\<rparr>"

definition mount :: "string \<Rightarrow> app" where
  "mount base =
     debounce \<lparr>items = [], loading = True, query = [], category = [], error = [],
       now = 0, timer = None, requests = [POST (seed_url base)], inflight = [0],
       console = []\<rparr>"

text \<open>
  What can happen next: the user types into the search bar or clicks a chip, time
  passes, or a request settles. A state setter called with the current value changes
  nothing, so the debounce effect does not run again; with a new value its clean-up
  clears the old timeout and the effect sets a new one. When time passes beyond the
  deadline the timeout fires and calls \<open>fetchProducts\<close> with the captured values. When
  the seed request settles, either way, \<open>finally\<close> calls \<open>fetchProducts()\<close>; when a
  product request settles, the rest of its \<open>fetchProducts\<close> runs.
\<close>

datatype event =
    SetQuery string
  | SetCategory string
  | Elapse nat
  | Settles nat response

definition elapse :: "string \<Rightarrow> nat \<Rightarrow> app \<Rightarrow> app" where
  "elapse base d s =
     (case timer s of
        None \<Rightarrow> s\<lparr>now := now s + d\<rparr>
      | Some (deadline, op) \<Rightarrow>
          if deadline \<le> now s + d
          then (fetchProducts base op (s\<lparr>timer := None\<rparr>))\<lparr>now := now s + d\<rparr>
          else s\<lparr>now := now s + d\<rparr>)"

definition settles :: "string \<Rightarrow> nat \<Rightarrow> response \<Rightarrow> app \<Rightarrow> app" where
  "settles base i r s =
     (if i \<in> set (inflight s) \<and> i < length (requests s)
      then (case requests s ! i of
              POST u \<Rightarrow>
                fetchProducts base \<lparr>opt_category = None, opt_q = None\<rparr>
                  (s\<lparr>inflight := removeAll i (inflight s)\<rparr>)
            | GET u \<Rightarrow>
                apply_effects (fetchProducts_settle r)
                  (s\<lparr>inflight := removeAll i (inflight s)\<rparr>))
      else s)"

text \<open>Request \<open>i\<close> is a product request that has not settled yet.\<close>

definition awaiting_products :: "app \<Rightarrow> nat \<Rightarrow> bool" where
  "awaiting_products s i =
     (i \<in> set (inflight s) \<and> i < length (requests s) \<and>
      (case requests s ! i of GET u \<Rightarrow> True | POST u \<Rightarrow> False))"

fun step :: "string \<Rightarrow> app \<Rightarrow> event \<Rightarrow> app" where
  "step base s (SetQuery v) = (if v = query s then s else debounce (s\<lparr>query := v\<rparr>))"
| "step base s (SetCategory c) = (if c = category s then s else debounce (s\<lparr>category := c\<rparr>))"
| "step base s (Elapse d) = elapse base d s"
| "step base s (Settles i r) = settles base i r s"

definition run :: "string \<Rightarrow> event list \<Rightarrow> app \<Rightarrow> app" where
  "run base es s = foldl (step base) s es"

subsection \<open>Rendering\<close>

text \<open>
  The children of \<open>main\<close> that depend on the state (lines 133 to 150): the banner,
  present when \<open>error\<close> is truthy, and after it the value of the nested conditional.
\<close>

datatype view =
    ErrorBanner string
  | Skeletons "nat list"
  | NoProductsFound
  | Grid "product list"

definition render :: "app \<Rightarrow> view list" where
  "render s =
     (if error s \<noteq> [] then [ErrorBanner (error s)] else [])
     @ [if loading s then Skeletons (map (\<lambda>idx. idx) [0..<8])
        else if length (items s) = 0 then NoProductsFound
        else Grid (items s)]"

fun is_banner :: "view \<Rightarrow> bool" where
  "is_banner (ErrorBanner e) = True"
| "is_banner v = False"

subsection \<open>Runs of events\<close>

text \<open>An event that really changes the query state (the term or the selected category).\<close>

fun is_change :: "app \<Rightarrow> event \<Rightarrow> bool" where
  "is_change s (SetQuery v) = (v \<noteq> query s)"
| "is_change s (SetCategory c) = (c \<noteq> category s)"
| "is_change s (Elapse d) = False"
| "is_change s (Settles i r) = False"

text \<open>An event that settles a product request, and runs in which none does.\<close>

fun settles_products :: "app \<Rightarrow> event \<Rightarrow> bool" where
  "settles_products s (Settles i r) = awaiting_products s i"
| "settles_products s (SetQuery v) = False"
| "settles_products s (SetCategory c) = False"
| "settles_products s (Elapse d) = False"

fun undisturbed :: "string \<Rightarrow> app \<Rightarrow> event list \<Rightarrow> bool" where
  "undisturbed base s [] = True"
| "undisturbed base s (e # es) = (\<not> settles_products s e \<and> undisturbed base (step base s e) es)"

fun is_POST :: "request \<Rightarrow> bool" where
  "is_POST (POST u) = True"
| "is_POST (GET u) = False"

fun is_state_update :: "effect \<Rightarrow> bool" where
  "is_state_update (ConsoleError e) = False"
| "is_state_update (SetItems xs) = True"
| "is_state_update (SetLoading b) = True"
| "is_state_update (SetError e) = True"

text \<open>A product of a given category, for the examples.\<close>

definition with_category :: "string \<Rightarrow> product" where
  "with_category c = \<lparr>item_id = [], item_title = [], item_category = Some c\<rparr>"

text \<open>
  The requests sent by one event, and the requests sent during a run while time passes:
  the only code that runs then is the callback of the debounce timeout (line 104).
\<close>

definition sent :: "string \<Rightarrow> app \<Rightarrow> event \<Rightarrow> request list" where
  "sent base s e = drop (length (requests s)) (requests (step base s e))"

fun by_timeout :: "string \<Rightarrow> app \<Rightarrow> event list \<Rightarrow> request list" where
  "by_timeout base s [] = []"
| "by_timeout base s (e # es) =
     (case e of Elapse d \<Rightarrow> sent base s e | _ \<Rightarrow> []) @ by_timeout base (step base s e) es"

text \<open>
  User input, the time a run takes, and the time since the last user input, which is
  \<open>w\<close> before the run.
\<close>

fun is_input :: "event \<Rightarrow> bool" where
  "is_input (SetQuery v) = True"
| "is_input (SetCategory c) = True"
| "is_input (Elapse d) = False"
| "is_input (Settles i r) = False"

fun is_settles :: "event \<Rightarrow> bool" where
  "is_settles (Settles i r) = True"
| "is_settles (SetQuery v) = False"
| "is_settles (SetCategory c) = False"
| "is_settles (Elapse d) = False"

fun elapsed :: "event list \<Rightarrow> nat" where
  "elapsed [] = 0"
| "elapsed (e # es) = (case e of Elapse d \<Rightarrow> d | _ \<Rightarrow> 0) + elapsed es"

fun gap_after :: "nat \<Rightarrow> event \<Rightarrow> nat" where
  "gap_after w (Elapse d) = w + d"
| "gap_after w (SetQuery v) = 0"
| "gap_after w (SetCategory c) = 0"
| "gap_after w (Settles i r) = w"

fun quiet_for :: "nat \<Rightarrow> event list \<Rightarrow> nat" where
  "quiet_for w [] = w"
| "quiet_for w (e # es) = quiet_for (gap_after w e) es"

text \<open>
  A burst: a run of any events in which every user input changes the query state and
  comes less than 300 ms after the input before it (\<open>w\<close> is the time since that input at
  the start of the run). Time may pass in any number of steps, and requests may settle
  in between.
\<close>

fun burst :: "string \<Rightarrow> app \<Rightarrow> nat \<Rightarrow> event list \<Rightarrow> bool" where
  "burst base s w [] = True"
| "burst base s w (e # es) =
     ((is_input e \<longrightarrow> w < 300 \<and> is_change s e) \<and> burst base (step base s e) (gap_after w e) es)"


fun settles_parsed :: "app \<Rightarrow> event \<Rightarrow> bool" where
  "settles_parsed s (Settles i r) = (awaiting_products s i \<and> \<not> isl (try_block r))"
| "settles_parsed s (SetQuery v) = False"
| "settles_parsed s (SetCategory c) = False"
| "settles_parsed s (Elapse d) = False"

fun free_of :: "(app \<Rightarrow> event \<Rightarrow> bool) \<Rightarrow> string \<Rightarrow> app \<Rightarrow> event list \<Rightarrow> bool" where
  "free_of P base s [] = True"
| "free_of P base s (e # es) = (\<not> P s e \<and> free_of P base (step base s e) es)"

text \<open>The seed request settles in a run.\<close>

definition seed_settled :: "event list \<Rightarrow> bool" where
  "seed_settled es = list_ex (\<lambda>e. case e of Settles i r \<Rightarrow> i = 0 | _ \<Rightarrow> False) es"

text \<open>The timeout as a burst leaves it, \<open>w\<close> after the last input.\<close>

definition pending :: "app \<Rightarrow> nat \<Rightarrow> bool" where
  "pending s w \<longleftrightarrow>
     timer s = (if w < 300
                then Some (now s + (300 - w), \<lparr>opt_category = Some (category s), opt_q = Some (query s)\<rparr>)
                else None)"

text \<open>The seed request, sent first, has not settled yet.\<close>

definition seed_pending :: "string \<Rightarrow> app \<Rightarrow> bool" where
  "seed_pending base s \<longleftrightarrow>
     0 \<in> set (inflight s) \<and> requests s \<noteq> [] \<and> requests s ! 0 = POST (seed_url base)"

section \<open>Auxiliary facts\<close>

subsection \<open>Insertion-ordered sets\<close>

lemma filter_neq_filter: "filter (\<lambda>y. y \<noteq> x) (filter P xs) = filter (\<lambda>y. P y \<and> y \<noteq> x) xs"
  by (induction xs) auto

lemma foldl_Set_add: "foldl Set_add acc xs = acc @ first_seen (filter (\<lambda>x. x \<notin> set acc) xs)"
proof (induction xs arbitrary: acc)
  case Nil
  show ?case by simp
next
  case (Cons x xs)
  show ?case
  proof (cases "x \<in> set acc")
    case True
    then show ?thesis using Cons.IH [of acc] by (simp add: Set_add_def)
  next
    case False
    have "filter (\<lambda>y. y \<notin> set (acc @ [x])) xs = filter (\<lambda>y. y \<noteq> x) (filter (\<lambda>y. y \<notin> set acc) xs)"
      by (induction xs) auto
    then show ?thesis using False Cons.IH [of "acc @ [x]"] by (simp add: Set_add_def)
  qed
qed

lemma new_Set_first_seen: "new_Set xs = first_seen xs"
  by (simp add: new_Set_def foldl_Set_add)

lemma set_first_seen: "set (first_seen xs) = set xs"
  by (induction xs rule: first_seen.induct) auto

lemma distinct_first_seen: "distinct (first_seen xs)"
  by (induction xs rule: first_seen.induct) (auto simp: set_first_seen)

lemma filter_neq_absent: "a \<notin> set xs \<Longrightarrow> filter (\<lambda>y. y \<noteq> a) xs = xs"
  by (induction xs) auto

lemma first_seen_distinct: "distinct xs \<Longrightarrow> first_seen xs = xs"
  by (induction xs) (simp_all add: filter_neq_absent)

lemma first_seen_remdups: "first_seen xs = rev (remdups (rev xs))"
proof (induction xs rule: first_seen.induct)
  case 1
  show ?case by simp
next
  case (2 x xs)
  have "remdups (rev xs @ [x]) = remdups (filter (\<lambda>y. y \<noteq> x) (rev xs)) @ [x]" for xs :: "'a list"
    by (induction xs rule: rev_induct) (auto simp: remdups_filter)
  then show ?case using 2 by (simp add: rev_filter)
qed

lemma categories_first_seen:
  "categories its = first_seen (filter Boolean (map item_category its))"
  by (simp add: categories_def Array_from_def new_Set_first_seen)

subsection \<open>Effects of \<open>fetchProducts\<close>\<close>

lemma apply_effects_simps [simp]:
  "apply_effects [] s = s"
  "apply_effects (e # es) s = apply_effects es (apply_effect s e)"
  by (simp_all add: apply_effects_def)

lemma fetchProducts_fields [simp]:
  "items (fetchProducts base op s) = items s"
  "loading (fetchProducts base op s) = True"
  "error (fetchProducts base op s) = []"
  "query (fetchProducts base op s) = query s"
  "category (fetchProducts base op s) = category s"
  "now (fetchProducts base op s) = now s"
  "timer (fetchProducts base op s) = timer s"
  "console (fetchProducts base op s) = console s"
  "requests (fetchProducts base op s) = requests s @ [GET (products_url base op)]"
  "inflight (fetchProducts base op s) = inflight s @ [length (requests s)]"
  by (simp_all add: fetchProducts_def fetchProducts_begin_def Let_def)

lemma settle_effects_cases:
  "fetchProducts_settle r =
     (case try_block r of Inr xs \<Rightarrow> [SetItems xs, SetLoading False]
      | Inl e \<Rightarrow> [ConsoleError e, SetError ''Failed to load products'', SetLoading False])"
  by (simp add: fetchProducts_settle_def split: sum.splits)

lemma settles_products_fields:
  assumes "awaiting_products s i"
  shows "loading (settles base i r s) = False"
    and "items (settles base i r s) = (case try_block r of Inr xs \<Rightarrow> xs | Inl e \<Rightarrow> items s)"
    and "error (settles base i r s) =
           (case try_block r of Inr xs \<Rightarrow> error s | Inl e \<Rightarrow> ''Failed to load products'')"
    and "console (settles base i r s) =
           (case try_block r of Inr xs \<Rightarrow> console s | Inl e \<Rightarrow> console s @ [e])"
    and "query (settles base i r s) = query s"
    and "category (settles base i r s) = category s"
    and "now (settles base i r s) = now s"
    and "timer (settles base i r s) = timer s"
    and "requests (settles base i r s) = requests s"
    and "inflight (settles base i r s) = removeAll i (inflight s)"
  using assms
  by (auto simp: awaiting_products_def settles_def settle_effects_cases
      split: request.splits sum.splits)

lemma awaiting_issued: "awaiting_products (fetchProducts base op s) (length (requests s))"
  by (simp add: awaiting_products_def)

lemma build_params_cases:
  "build_params op =
     (case opt_category op of Some c \<Rightarrow> if c \<noteq> [] then [(''category'', c)] else [] | None \<Rightarrow> [])
     @ (case opt_q op of Some t \<Rightarrow> if t \<noteq> [] then [(''q'', t)] else [] | None \<Rightarrow> [])"
  by (simp add: build_params_def params_append_def split: option.splits)

section \<open>Category derivation\<close>

text \<open>
  Claim C2. For every item list, \<open>categories\<close> is the list of the category values that
  are neither missing nor empty, without duplicates, in the order in which they are first
  seen (equally: what \<open>remdups\<close> keeps when it reads the list from the right). Deriving
  again from items that carry the derived categories gives the same list. For distinct
  non-empty \<open>A\<close>, \<open>B\<close>, \<open>C\<close>, items of categories \<open>A, B, A, "", C, B\<close> give
  exactly \<open>A, B, C\<close>.
\<close>

theorem categories_spec:
  assumes "A \<noteq> B" and "A \<noteq> C" and "B \<noteq> C" and "A \<noteq> []" and "B \<noteq> []" and "C \<noteq> []"
    and "map item_category ex = [Some A, Some B, Some A, Some [], Some C, Some B]"
    and "map item_category again = categories its"
  shows "categories its = first_seen (filter (\<lambda>c. c \<noteq> None \<and> c \<noteq> Some []) (map item_category its))
    \<and> categories its = rev (remdups (rev (filter (\<lambda>c. c \<noteq> None \<and> c \<noteq> Some []) (map item_category its))))
    \<and> distinct (categories its)
    \<and> None \<notin> set (categories its) \<and> Some [] \<notin> set (categories its)
    \<and> categories again = categories its
    \<and> categories ex = [Some A, Some B, Some C]"
proof -
  have B: "Boolean = (\<lambda>c. c \<noteq> None \<and> c \<noteq> Some [])"
    by (auto simp: Boolean_def fun_eq_iff split: option.splits)
  have 1: "categories its = first_seen (filter (\<lambda>c. c \<noteq> None \<and> c \<noteq> Some []) (map item_category its))"
    by (simp add: categories_first_seen B)
  have 2: "distinct (categories its)"
    by (simp add: categories_first_seen distinct_first_seen)
  have 3: "set (categories its) \<subseteq> {c. c \<noteq> None \<and> c \<noteq> Some []}"
    by (auto simp: 1 set_first_seen)
  have "filter Boolean (categories its) = categories its"
    using 3 by (intro filter_True) (auto simp: B)
  then have 4: "categories again = categories its"
    using assms(8) 2 by (simp add: categories_first_seen [of again] first_seen_distinct)
  have 5: "categories ex = [Some A, Some B, Some C]"
    using assms(1-7) by (simp add: categories_first_seen Boolean_def)
  show ?thesis using 1 2 3 4 5 by (auto simp: first_seen_remdups [symmetric])
qed

theorem categories_spec_witness:
  "categories [with_category ''A'', with_category ''B'', with_category ''A'', with_category [], with_category ''C'', with_category ''B'']
     = [Some ''A'', Some ''B'', Some ''C'']
   \<and> map item_category [with_category ''A'', with_category ''B'', with_category ''C'']
     = categories [with_category ''A'', with_category ''B'', with_category ''A'', with_category [], with_category ''C'', with_category ''B'']
   \<and> categories [with_category ''A'', with_category ''B'', with_category ''C''] = [Some ''A'', Some ''B'', Some ''C'']"
proof -
  let ?ex = "[with_category ''A'', with_category ''B'', with_category ''A'', with_category [], with_category ''C'', with_category ''B'']"
  let ?again = "[with_category ''A'', with_category ''B'', with_category ''C'']"
  have h1: "map item_category ?ex
      = [Some ''A'', Some ''B'', Some ''A'', Some [], Some ''C'', Some ''B'']"
    by (simp add: with_category_def)
  have h2: "map item_category ?again = categories ?ex"
    by (simp add: with_category_def categories_def Array_from_def new_Set_def Set_add_def Boolean_def)
  have n: "''A'' \<noteq> ''B''" "''A'' \<noteq> ''C''" "''B'' \<noteq> ''C''"
    "''A'' \<noteq> []" "''B'' \<noteq> []" "''C'' \<noteq> []"
    by simp_all
  from categories_spec [OF n h1 h2] h2 show ?thesis by metis
qed

section \<open>The request\<close>

text \<open>
  Claim C5, amended. The parameter list holds \<open>q\<close> exactly when the term is present and
  non-empty, and \<open>category\<close> exactly when the category is, each at most once and nothing
  else. When both are set, \<open>category\<close> comes first in the query string: for the term
  \<open>shoe\<close> and the category \<open>Electronics\<close> the request is
  \<open>/api/products?category=Electronics&q=shoe\<close>.
\<close>

theorem request_parameters:
  "((''q'', v) \<in> set (build_params op) \<longleftrightarrow> opt_q op = Some v \<and> v \<noteq> [])
   \<and> ((''category'', v) \<in> set (build_params op) \<longleftrightarrow> opt_category op = Some v \<and> v \<noteq> [])
   \<and> set (map fst (build_params op)) \<subseteq> {''q'', ''category''}
   \<and> distinct (map fst (build_params op))
   \<and> (c \<noteq> [] \<and> t \<noteq> [] \<longrightarrow>
        products_url base \<lparr>opt_category = Some c, opt_q = Some t\<rparr>
          = base @ ''/api/products?category='' @ form_encode c @ ''&q='' @ form_encode t)
   \<and> products_url base \<lparr>opt_category = Some ''Electronics'', opt_q = Some ''shoe''\<rparr>
        = base @ ''/api/products?category=Electronics&q=shoe''"
proof -
  have enc: "form_encode ''category'' = ''category''" "form_encode ''q'' = ''q''"
    "form_encode ''Electronics'' = ''Electronics''" "form_encode ''shoe'' = ''shoe''"
    by (simp_all add: form_encode_def form_byte_def form_keep_def)
  have 1: "(''q'', v) \<in> set (build_params op) \<longleftrightarrow> opt_q op = Some v \<and> v \<noteq> []"
    by (auto simp: build_params_cases split: option.splits if_splits)
  have 2: "(''category'', v) \<in> set (build_params op) \<longleftrightarrow> opt_category op = Some v \<and> v \<noteq> []"
    by (auto simp: build_params_cases split: option.splits if_splits)
  have 3: "set (map fst (build_params op)) \<subseteq> {''q'', ''category''}"
    by (auto simp: build_params_cases split: option.splits if_splits)
  have 4: "distinct (map fst (build_params op))"
    by (auto simp: build_params_cases split: option.splits if_splits)
  have 5: "products_url base \<lparr>opt_category = Some c, opt_q = Some t\<rparr>
          = base @ ''/api/products?category='' @ form_encode c @ ''&q='' @ form_encode t"
    if "c \<noteq> []" "t \<noteq> []" for c t
    using that by (simp add: products_url_def build_params_cases toString_def enc)
  have 6: "products_url base \<lparr>opt_category = Some ''Electronics'', opt_q = Some ''shoe''\<rparr>
        = base @ ''/api/products?category=Electronics&q=shoe''"
    by (simp add: 5 enc)
  show ?thesis using 1 2 3 4 5 6 by blast
qed

theorem request_parameters_witness:
  "products_url ''http://localhost:8000'' \<lparr>opt_category = Some ''Toys'', opt_q = Some ''a b''\<rparr>
     = ''http://localhost:8000/api/products?category=Toys&q=a+b''"
proof -
  have "''Toys'' \<noteq> [] \<and> ''a b'' \<noteq> []" by simp
  with request_parameters [of _ _ "''Toys''" "''a b''" "''http://localhost:8000''"]
  have "products_url ''http://localhost:8000'' \<lparr>opt_category = Some ''Toys'', opt_q = Some ''a b''\<rparr>
     = ''http://localhost:8000'' @ ''/api/products?category='' @ form_encode ''Toys'' @ ''&q='' @ form_encode ''a b''"
    by blast
  then show ?thesis by (simp add: form_encode_def form_byte_def form_keep_def)
qed

text \<open>
  As the claim writes the query string, \<open>q=shoe&category=Electronics\<close>, it occurs
  nowhere in the request.
\<close>

theorem request_order_counterexample:
  "\<not> sublist ''q=shoe&category=Electronics''
       (products_url (API_BASE None) \<lparr>opt_category = Some ''Electronics'', opt_q = Some ''shoe''\<rparr>)"
  by code_simp

section \<open>View selection\<close>

text \<open>
  Claim C7, amended. The error banner is rendered exactly when the error message is
  non-empty, whatever the loading flag and the item list are. Beside it exactly one of
  three views is rendered, in this order of priority: the eight placeholder skeletons
  while loading; else the "no results" view for an empty item list; else the grid.
\<close>

theorem render_views:
  "(ErrorBanner e \<in> set (render s) \<longleftrightarrow> e = error s \<and> error s \<noteq> [])
   \<and> (loading s \<longrightarrow> filter (\<lambda>v. \<not> is_banner v) (render s) = [Skeletons [0, 1, 2, 3, 4, 5, 6, 7]])
   \<and> (\<not> loading s \<and> items s = [] \<longrightarrow> filter (\<lambda>v. \<not> is_banner v) (render s) = [NoProductsFound])
   \<and> (\<not> loading s \<and> items s \<noteq> [] \<longrightarrow> filter (\<lambda>v. \<not> is_banner v) (render s) = [Grid (items s)])
   \<and> length (filter is_banner (render s)) = (if error s = [] then 0 else 1)"
proof -
  have u: "[0..<8] = [0, 1, 2, 3, 4, 5, 6, 7]" by (simp add: upt_rec)
  show ?thesis by (auto simp: render_def u)
qed

theorem render_views_witness:
  "filter (\<lambda>v. \<not> is_banner v)
     (render \<lparr>items = [with_category ''A''], loading = False, query = [], category = [],
        error = ''Failed to load products'', now = 0, timer = None, requests = [], inflight = [],
        console = []\<rparr>) = [Grid [with_category ''A'']]
   \<and> filter (\<lambda>v. \<not> is_banner v)
     (render \<lparr>items = [], loading = True, query = [], category = [],
        error = [], now = 0, timer = None, requests = [], inflight = [],
        console = []\<rparr>) = [Skeletons [0, 1, 2, 3, 4, 5, 6, 7]]
   \<and> filter (\<lambda>v. \<not> is_banner v)
     (render \<lparr>items = [], loading = False, query = [], category = [],
        error = [], now = 0, timer = None, requests = [], inflight = [],
        console = []\<rparr>) = [NoProductsFound]"
  using render_views [of _ "\<lparr>items = [with_category ''A''], loading = False, query = [],
        category = [], error = ''Failed to load products'', now = 0, timer = None, requests = [],
        inflight = [], console = []\<rparr>"]
    render_views [of _ "\<lparr>items = [], loading = True, query = [], category = [],
        error = [], now = 0, timer = None, requests = [], inflight = [], console = []\<rparr>"]
    render_views [of _ "\<lparr>items = [], loading = False, query = [], category = [],
        error = [], now = 0, timer = None, requests = [], inflight = [], console = []\<rparr>"]
  by simp

text \<open>
  With an error message, no loading and no items, two views are rendered: the banner and
  the "no results" view.
\<close>

theorem render_exclusive_counterexample:
  "render \<lparr>items = [], loading = False, query = [], category = [],
      error = ''Failed to load products'', now = 0, timer = None, requests = [], inflight = [],
      console = []\<rparr>
   = [ErrorBanner ''Failed to load products'', NoProductsFound]"
  by (simp add: render_def)

section \<open>Outcome of a fetch\<close>

text \<open>
  Claim C4. When a product request that is in flight fails, by a network error or an
  unparseable body, the item list stays as it is, and so do the term and the category;
  the error message becomes "Failed to load products" and the loading flag is cleared.
  These are the only two state updates of the settlement, and sending the request did not
  touch the item list either.
\<close>

theorem failing_fetch_state:
  assumes "awaiting_products s i"
    and "r = NetworkError \<or> r = Response status Unparseable"
  shows "items (step base s (Settles i r)) = items s
    \<and> error (step base s (Settles i r)) = ''Failed to load products''
    \<and> loading (step base s (Settles i r)) = False
    \<and> query (step base s (Settles i r)) = query s
    \<and> category (step base s (Settles i r)) = category s
    \<and> filter is_state_update (fetchProducts_settle r)
        = [SetError ''Failed to load products'', SetLoading False]
    \<and> items (fetchProducts base op s) = items s"
proof -
  from assms(2) obtain e where e: "try_block r = Inl e"
    by (auto simp: try_block_def)
  then have "filter is_state_update (fetchProducts_settle r)
      = [SetError ''Failed to load products'', SetLoading False]"
    by (simp add: settle_effects_cases)
  then show ?thesis
    using e by (simp add: settles_products_fields [OF assms(1)])
qed

theorem failing_fetch_state_witness:
  "items (run ''http://localhost:8000''
      [Settles 0 NetworkError, Settles 1 (Response 200 (JsonValue (Some [with_category ''A'']))),
       Elapse 300, Settles 2 (Response 502 Unparseable)] (mount ''http://localhost:8000''))
   = [with_category ''A'']"
proof -
  let ?s = "run ''http://localhost:8000''
      [Settles 0 NetworkError, Settles 1 (Response 200 (JsonValue (Some [with_category ''A'']))),
       Elapse 300] (mount ''http://localhost:8000'')"
  have a: "awaiting_products ?s 2" by code_simp
  have i: "items ?s = [with_category ''A'']" by code_simp
  have "items (step ''http://localhost:8000'' ?s (Settles 2 (Response 502 Unparseable))) = items ?s"
    using failing_fetch_state [OF a, of "Response 502 Unparseable" 502] by blast
  then show ?thesis using i by (simp add: run_def)
qed

text \<open>
  Claim C9, amended. The status of a response is never read: two responses with the same
  body settle alike. The failure message is set exactly when the request rejects, the
  body does not parse, or the body parses to \<open>null\<close>; every other response sets the
  item list.
\<close>

theorem status_never_read:
  "try_block (Response status b) = try_block (Response status' b)
   \<and> fetchProducts_settle (Response status b) = fetchProducts_settle (Response status' b)
   \<and> step base s (Settles i (Response status b)) = step base s (Settles i (Response status' b))
   \<and> (SetError ''Failed to load products'' \<in> set (fetchProducts_settle r) \<longleftrightarrow>
        r = NetworkError \<or> (\<exists>st. r = Response st Unparseable) \<or> (\<exists>st. r = Response st JsonNull))
   \<and> ((\<exists>xs. fetchProducts_settle r = [SetItems xs, SetLoading False]) \<longleftrightarrow>
        (\<exists>st its. r = Response st (JsonValue its)))"
proof -
  have 1: "try_block (Response status b) = try_block (Response status' b)"
    by (simp add: try_block_def)
  then have 2: "fetchProducts_settle (Response status b) = fetchProducts_settle (Response status' b)"
    by (simp add: fetchProducts_settle_def)
  have 3: "step base s (Settles i (Response status b)) = step base s (Settles i (Response status' b))"
    by (simp add: settles_def 2 split: request.splits)
  have 4: "SetError ''Failed to load products'' \<in> set (fetchProducts_settle r) \<longleftrightarrow>
        r = NetworkError \<or> (\<exists>st. r = Response st Unparseable) \<or> (\<exists>st. r = Response st JsonNull)"
    by (auto simp: settle_effects_cases try_block_def split: response.splits body.splits)
  have 5: "(\<exists>xs. fetchProducts_settle r = [SetItems xs, SetLoading False]) \<longleftrightarrow>
        (\<exists>st its. r = Response st (JsonValue its))"
    by (auto simp: settle_effects_cases try_block_def split: response.splits body.splits)
  show ?thesis using 1 2 3 4 5 by blast
qed

text \<open>
  A completed response of status 500 whose body parses (to \<open>null\<close>) is a failure.
\<close>

theorem null_body_failure_counterexample:
  "fetchProducts_settle (Response 500 JsonNull)
     = [ConsoleError TypeError, SetError ''Failed to load products'', SetLoading False]"
  by (simp add: fetchProducts_settle_def try_block_def)

section \<open>Runs of the event loop\<close>

lemma run_simps [simp]:
  "run base [] s = s"
  "run base (e # es) s = run base es (step base s e)"
  "run base (es @ es') s = run base es' (run base es s)"
  by (simp_all add: run_def)

text \<open>Time passing in two parts is time passing at once.\<close>

lemma elapse_add: "elapse base b (elapse base a s) = elapse base (a + b) s"
  by (auto simp: elapse_def fetchProducts_def fetchProducts_begin_def Let_def add.assoc
      split: option.splits)

subsection \<open>The loading flag\<close>

lemma loading_step:
  assumes "loading s" and "\<not> settles_products s e"
  shows "loading (step base s e)"
proof (cases e)
  case (SetQuery v)
  then show ?thesis using assms(1) by (simp add: debounce_def)
next
  case (SetCategory c)
  then show ?thesis using assms(1) by (simp add: debounce_def)
next
  case (Elapse d)
  then show ?thesis using assms(1) by (simp add: elapse_def split: option.splits)
next
  case (Settles i r)
  then show ?thesis using assms
    by (auto simp: settles_def awaiting_products_def split: request.splits)
qed

lemma loading_run:
  assumes "loading s" and "undisturbed base s es"
  shows "loading (run base es s)"
  using assms
proof (induction es arbitrary: s)
  case Nil
  then show ?case by simp
next
  case (Cons e es)
  then show ?case by (simp add: loading_step)
qed

text \<open>
  Claim C3, amended. Every call of \<open>fetchProducts\<close> sets the loading flag first, and the
  flag stays true for as long as no product request settles, whatever else happens. Each
  settlement, successful or not, clears the flag exactly once, as its last effect, and
  never sets it.
\<close>

theorem loading_span:
  "loading (fetchProducts base op s)
   \<and> (undisturbed base (fetchProducts base op s) es \<longrightarrow>
        loading (run base es (fetchProducts base op s)))
   \<and> last (fetchProducts_settle r) = SetLoading False
   \<and> count_list (fetchProducts_settle r) (SetLoading False) = 1
   \<and> SetLoading True \<notin> set (fetchProducts_settle r)
   \<and> hd fetchProducts_begin = SetLoading True
   \<and> (awaiting_products s' i \<longrightarrow> \<not> loading (step base s' (Settles i r)))"
proof -
  have 1: "undisturbed base (fetchProducts base op s) es \<longrightarrow>
        loading (run base es (fetchProducts base op s))"
    by (simp add: loading_run)
  have 2: "last (fetchProducts_settle r) = SetLoading False
     \<and> count_list (fetchProducts_settle r) (SetLoading False) = 1
     \<and> SetLoading True \<notin> set (fetchProducts_settle r)"
    by (simp add: settle_effects_cases split: sum.splits)
  have 3: "awaiting_products s' i \<longrightarrow> \<not> loading (step base s' (Settles i r))"
    by (simp add: settles_products_fields)
  show ?thesis using 1 2 3 by (simp add: fetchProducts_begin_def)
qed

theorem loading_span_witness:
  "loading (run ''http://localhost:8000''
      [Settles 0 NetworkError, SetQuery ''shoe'', Elapse 100] (mount ''http://localhost:8000''))
   \<and> \<not> loading (run ''http://localhost:8000''
      [Settles 0 NetworkError, SetQuery ''shoe'', Elapse 100, Settles 1 NetworkError]
      (mount ''http://localhost:8000''))"
proof -
  let ?b = "''http://localhost:8000''"
  let ?m = "(mount ?b)\<lparr>inflight := removeAll 0 (inflight (mount ?b))\<rparr>"
  let ?f = "fetchProducts ?b \<lparr>opt_category = None, opt_q = None\<rparr> ?m"
  have s: "run ?b [Settles 0 NetworkError] (mount ?b) = ?f"
    by (simp add: mount_def debounce_def settles_def seed_url_def)
  have u: "undisturbed ?b ?f [SetQuery ''shoe'', Elapse 100]"
    by simp
  have a: "awaiting_products (run ?b [SetQuery ''shoe'', Elapse 100] ?f) 1"
    by code_simp
  from loading_span [of ?b "\<lparr>opt_category = None, opt_q = None\<rparr>" ?m
      "[SetQuery ''shoe'', Elapse 100]" NetworkError
      "run ?b [SetQuery ''shoe'', Elapse 100] ?f" 1] u a
  have "loading (run ?b [SetQuery ''shoe'', Elapse 100] ?f)
    \<and> \<not> loading (step ?b (run ?b [SetQuery ''shoe'', Elapse 100] ?f) (Settles 1 NetworkError))"
    by blast
  then show ?thesis
    using s by (simp add: run_def)
qed

text \<open>
  When two calls overlap, the flag does not stay set until the later one settles: on
  mount, with the seed request settled after 100 ms, the second product request is sent
  after 300 ms, and as soon as the first settles the flag is false while the second is
  still in flight.
\<close>

theorem loading_overlap_counterexample:
  "\<not> loading (run (API_BASE None)
        [Elapse 100, Settles 0 (Response 200 (JsonValue None)), Elapse 200,
         Settles 1 (Response 200 (JsonValue (Some [])))] (mount (API_BASE None)))
   \<and> awaiting_products (run (API_BASE None)
        [Elapse 100, Settles 0 (Response 200 (JsonValue None)), Elapse 200,
         Settles 1 (Response 200 (JsonValue (Some [])))] (mount (API_BASE None))) 2"
  by code_simp

subsection \<open>Start-up\<close>

lemma posts_step: "filter is_POST (requests (step base s e)) = filter is_POST (requests s)"
proof (cases e)
  case (Elapse d)
  then show ?thesis by (simp add: elapse_def split: option.splits)
next
  case (Settles i r)
  then show ?thesis
    by (cases "awaiting_products s i")
      (auto simp: settles_products_fields, auto simp: settles_def awaiting_products_def split: request.splits)
qed (simp_all add: debounce_def)

lemma posts_run: "filter is_POST (requests (run base es s)) = filter is_POST (requests s)"
  by (induction es arbitrary: s) (simp_all add: posts_step)

lemma seed_pending_step:
  assumes "seed_pending base s" and "\<forall>r. e \<noteq> Settles 0 r"
  shows "seed_pending base (step base s e)"
proof (cases e)
  case (SetQuery v)
  then show ?thesis using assms(1) by (simp add: seed_pending_def debounce_def)
next
  case (SetCategory c)
  then show ?thesis using assms(1) by (simp add: seed_pending_def debounce_def)
next
  case (Elapse d)
  then show ?thesis using assms(1)
    by (simp add: seed_pending_def elapse_def nth_append split: option.splits)
next
  case (Settles i r)
  with assms(2) have i: "i \<noteq> 0" by auto
  from assms(1) have p: "0 \<in> set (inflight s)" "requests s \<noteq> []"
    "requests s ! 0 = POST (seed_url base)"
    by (simp_all add: seed_pending_def)
  from p(1) i have k: "0 \<in> set (removeAll i (inflight s))" by simp
  from p(2) have n: "(requests s @ [x]) ! 0 = requests s ! 0" for x
    by (simp add: nth_append)
  show ?thesis
  proof (cases "i \<in> set (inflight s) \<and> i < length (requests s)")
    case False
    then have "settles base i r s = s" unfolding settles_def by (rule if_not_P)
    then show ?thesis using assms(1) Settles by simp
  next
    case True
    show ?thesis
    proof (cases "requests s ! i")
      case (POST u)
      with True have "settles base i r s = fetchProducts base \<lparr>opt_category = None, opt_q = None\<rparr>
                  (s\<lparr>inflight := removeAll i (inflight s)\<rparr>)"
        by (simp add: settles_def)
      then show ?thesis using Settles p k n by (simp add: seed_pending_def)
    next
      case (GET u)
      with True have "awaiting_products s i" by (simp add: awaiting_products_def)
      then show ?thesis using Settles p k
        by (simp add: seed_pending_def settles_products_fields)
    qed
  qed
qed

lemma seed_pending_run:
  assumes "seed_pending base s" and "\<forall>r. Settles 0 r \<notin> set es"
  shows "seed_pending base (run base es s)"
  using assms
proof (induction es arbitrary: s)
  case Nil
  then show ?case by simp
next
  case (Cons e es)
  from Cons.prems(2) have "\<forall>r. e \<noteq> Settles 0 r" and "\<forall>r. Settles 0 r \<notin> set es"
    by auto
  then show ?case using Cons.IH Cons.prems(1) by (simp add: seed_pending_step)
qed

lemma seed_settles:
  assumes "seed_pending base s"
  shows "settles base 0 r s =
    fetchProducts base \<lparr>opt_category = None, opt_q = None\<rparr> (s\<lparr>inflight := removeAll 0 (inflight s)\<rparr>)"
  using assms by (simp add: seed_pending_def settles_def)

lemma empty_url: "products_url base \<lparr>opt_category = None, opt_q = None\<rparr> = base @ ''/api/products?''"
  "products_url base \<lparr>opt_category = Some [], opt_q = Some []\<rparr> = base @ ''/api/products?''"
  by (simp_all add: products_url_def build_params_cases toString_def)

subsection \<open>What an event leaves alone, and what it sends\<close>

lemma settles_cases:
  "settles base i r s = s
   \<or> settles base i r s = fetchProducts base \<lparr>opt_category = None, opt_q = None\<rparr>
        (s\<lparr>inflight := removeAll i (inflight s)\<rparr>)
   \<or> awaiting_products s i"
proof (cases "i \<in> set (inflight s) \<and> i < length (requests s)")
  case False
  then have "settles base i r s = s" unfolding settles_def by (rule if_not_P)
  then show ?thesis by simp
next
  case True
  show ?thesis
  proof (cases "requests s ! i")
    case (POST u)
    with True show ?thesis by (simp add: settles_def)
  next
    case (GET u)
    with True show ?thesis by (simp add: awaiting_products_def)
  qed
qed

lemma settles_frame:
  "query (settles base i r s) = query s"
  "category (settles base i r s) = category s"
  "timer (settles base i r s) = timer s"
  "now (settles base i r s) = now s"
  using settles_cases [of base i r s]
  by (auto simp: settles_products_fields)

lemma elapse_frame:
  "query (elapse base d s) = query s"
  "category (elapse base d s) = category s"
  "now (elapse base d s) = now s + d"
  by (simp_all add: elapse_def split: option.splits)

lemma requests_step: "requests (step base s e) = requests s @ sent base s e"
proof -
  have "\<exists>ys. requests (step base s e) = requests s @ ys"
  proof (cases e)
    case (Elapse d)
    then show ?thesis by (simp add: elapse_def split: option.splits)
  next
    case (Settles i r)
    then show ?thesis using settles_cases [of base i r s]
      by (auto simp: settles_products_fields)
  qed (simp_all add: debounce_def)
  then show ?thesis by (auto simp: sent_def)
qed

lemma sent_input: "is_input e \<Longrightarrow> sent base s e = []"
  by (cases e) (simp_all add: sent_def debounce_def)

lemma by_timeout_append:
  "by_timeout base s (es @ es') = by_timeout base s es @ by_timeout base (run base es s) es'"
  by (induction es arbitrary: s) simp_all

lemma requests_run_no_settles:
  "list_all (\<lambda>e. \<not> is_settles e) es \<Longrightarrow> requests (run base es s) = requests s @ by_timeout base s es"
proof (induction es arbitrary: s)
  case Nil
  then show ?case by simp
next
  case (Cons e es)
  then have IH: "requests (run base es (step base s e)) = requests (step base s e) @ by_timeout base (step base s e) es"
    by simp
  from Cons.prems have "\<not> is_settles e" by simp
  then have "requests (step base s e) = requests s @ (case e of Elapse d \<Rightarrow> sent base s e | _ \<Rightarrow> [])"
    using requests_step [of base s e] sent_input [of e base s] by (cases e) simp_all
  then show ?case using IH by simp
qed

subsection \<open>Debounce\<close>

lemma burst_late:
  assumes "300 \<le> w" and "burst base s w es"
  shows "query (run base es s) = query s \<and> category (run base es s) = category s
    \<and> 300 \<le> quiet_for w es"
  using assms
proof (induction es arbitrary: s w)
  case Nil
  then show ?case by simp
next
  case (Cons e es)
  from Cons.prems have ni: "\<not> is_input e" and b: "burst base (step base s e) (gap_after w e) es"
    by auto
  from ni Cons.prems(1) have g: "300 \<le> gap_after w e" by (cases e) simp_all
  from ni have "query (step base s e) = query s \<and> category (step base s e) = category s"
    by (cases e) (simp_all add: settles_frame elapse_frame)
  then show ?case using Cons.IH [OF g b] by simp
qed

lemma pending_step:
  assumes "pending s w" and "is_input e \<longrightarrow> is_change s e"
  shows "pending (step base s e) (gap_after w e)"
proof (cases e)
  case (SetQuery v)
  then show ?thesis using assms by (simp add: pending_def debounce_def)
next
  case (SetCategory c)
  then show ?thesis using assms by (simp add: pending_def debounce_def)
next
  case (Elapse d)
  then show ?thesis using assms(1)
    by (auto simp: pending_def elapse_def)
next
  case (Settles i r)
  then show ?thesis using assms(1) by (simp add: pending_def settles_frame)
qed

lemma by_timeout_step:
  assumes "pending s w"
  shows "(case e of Elapse d \<Rightarrow> sent base s e | _ \<Rightarrow> []) =
    (if \<not> is_input e \<and> w < 300 \<and> 300 \<le> gap_after w e
     then [GET (products_url base \<lparr>opt_category = Some (category s), opt_q = Some (query s)\<rparr>)]
     else [])"
proof (cases e)
  case (Elapse d)
  then show ?thesis using assms
    by (auto simp: pending_def sent_def elapse_def)
qed simp_all

lemma burst_timeout:
  assumes "pending s w" and "burst base s w es"
  shows "by_timeout base s es =
      (if w < 300 \<and> 300 \<le> quiet_for w es
       then [GET (products_url base \<lparr>opt_category = Some (category (run base es s)),
                                      opt_q = Some (query (run base es s))\<rparr>)]
       else [])
    \<and> pending (run base es s) (quiet_for w es)"
  using assms
proof (induction es arbitrary: s w)
  case Nil
  then show ?case by simp
next
  case (Cons e es)
  let ?s = "step base s e" and ?w = "gap_after w e"
  from Cons.prems have c: "is_input e \<longrightarrow> w < 300 \<and> is_change s e" and b: "burst base ?s ?w es"
    by simp_all
  have p: "pending ?s ?w" using pending_step [OF Cons.prems(1)] c by simp
  note IH = Cons.IH [OF p b]
  note hd = by_timeout_step [OF Cons.prems(1), where e = e and base = base]
  show ?case
  proof (cases "\<not> is_input e \<and> w < 300 \<and> 300 \<le> ?w")
    case True
    then have fr: "query ?s = query s \<and> category ?s = category s"
      by (cases e) (simp_all add: settles_frame elapse_frame)
    from True have late: "300 \<le> ?w" by simp
    from burst_late [OF late b] fr
    have "query (run base es ?s) = query s \<and> category (run base es ?s) = category s
        \<and> 300 \<le> quiet_for ?w es"
      by simp
    then show ?thesis using IH hd True by simp
  next
    case False
    have "(w < 300) = (?w < 300)"
      using False c by (cases e) auto
    then show ?thesis using IH hd False by simp
  qed
qed

text \<open>
  Claim C1, amended. Take any state, a change of the query state in it, and after it any
  run of events in which every further user input changes the query state and comes less
  than 300 ms after the input before it; time may pass in any number of steps and
  requests may settle in between. The change itself sends nothing and replaces whatever
  timeout was pending by one due 300 ms later. In the whole run the timeout sends nothing
  until 300 ms have passed since the last change, and from then on it has sent exactly one
  request, a product request with the term and the category as they are after the last
  change, and no timeout is pending. When no request settles in the run, this is the only
  request sent.
\<close>

theorem debounce_trailing_edge:
  assumes "is_change s e" and "burst base (step base s e) 0 es"
  shows "sent base s e = []
    \<and> timer (step base s e)
        = Some (now s + 300, \<lparr>opt_category = Some (category (step base s e)),
                                 opt_q = Some (query (step base s e))\<rparr>)
    \<and> by_timeout base s (e # es)
        = (if 300 \<le> quiet_for 0 es
           then [GET (products_url base
                   \<lparr>opt_category = Some (category (run base (e # es) s)),
                      opt_q = Some (query (run base (e # es) s))\<rparr>)]
           else [])
    \<and> (300 \<le> quiet_for 0 es \<longrightarrow> timer (run base (e # es) s) = None)
    \<and> (list_all (\<lambda>e. \<not> is_settles e) es \<longrightarrow>
         requests (run base (e # es) s)
           = requests s @
             (if 300 \<le> quiet_for 0 es
              then [GET (products_url base
                      \<lparr>opt_category = Some (category (run base (e # es) s)),
                         opt_q = Some (query (run base (e # es) s))\<rparr>)]
              else []))"
proof -
  let ?s = "step base s e"
  from assms(1) have i: "is_input e" by (cases e) simp_all
  then have 1: "sent base s e = []" by (rule sent_input)
  have 2: "timer ?s = Some (now s + 300, \<lparr>opt_category = Some (category ?s),
                                 opt_q = Some (query ?s)\<rparr>)"
    using assms(1) by (cases e) (simp_all add: debounce_def)
  have "now ?s = now s" using assms(1) by (cases e) (simp_all add: debounce_def)
  with 2 have p: "pending ?s 0" by (simp add: pending_def)
  note bt = burst_timeout [OF p assms(2)]
  have 3: "by_timeout base s (e # es)
        = (if 300 \<le> quiet_for 0 es
           then [GET (products_url base
                   \<lparr>opt_category = Some (category (run base (e # es) s)),
                      opt_q = Some (query (run base (e # es) s))\<rparr>)]
           else [])"
    using bt i by (cases e) simp_all
  have 4: "300 \<le> quiet_for 0 es \<longrightarrow> timer (run base (e # es) s) = None"
    using bt by (simp add: pending_def)
  have 5: "requests (run base (e # es) s) = requests s @ by_timeout base s (e # es)"
    if "list_all (\<lambda>e. \<not> is_settles e) es"
    using requests_run_no_settles [of "e # es" base s] that i by (cases e) simp_all
  show ?thesis using 1 2 3 4 5 by simp
qed

theorem debounce_trailing_edge_witness:
  "by_timeout ''http://localhost:8000'' (mount ''http://localhost:8000'')
     [SetQuery ''s'', Elapse 100, Settles 0 NetworkError, SetQuery ''sh'', Elapse 150, Elapse 149,
      SetCategory ''Electronics'', Elapse 200, SetQuery ''shoe'', Elapse 100, Elapse 100,
      Elapse 100]
   = [GET ''http://localhost:8000/api/products?category=Electronics&q=shoe'']"
proof -
  let ?b = "''http://localhost:8000''"
  let ?es = "[Elapse 100, Settles 0 NetworkError, SetQuery ''sh'', Elapse 150, Elapse 149,
      SetCategory ''Electronics'', Elapse 200, SetQuery ''shoe'', Elapse 100, Elapse 100,
      Elapse 100]"
  have c: "is_change (mount ?b) (SetQuery ''s'')" by code_simp
  have r: "burst ?b (step ?b (mount ?b) (SetQuery ''s'')) 0 ?es" by code_simp
  have q: "(300::nat) \<le> quiet_for 0 ?es" by simp
  have u: "GET (products_url ?b
               \<lparr>opt_category = Some (category (run ?b (SetQuery ''s'' # ?es) (mount ?b))),
                  opt_q = Some (query (run ?b (SetQuery ''s'' # ?es) (mount ?b)))\<rparr>)
      = GET ''http://localhost:8000/api/products?category=Electronics&q=shoe''" by code_simp
  from debounce_trailing_edge [OF c r] q
  have "by_timeout ?b (mount ?b) (SetQuery ''s'' # ?es)
      = [GET (products_url ?b
               \<lparr>opt_category = Some (category (run ?b (SetQuery ''s'' # ?es) (mount ?b))),
                  opt_q = Some (query (run ?b (SetQuery ''s'' # ?es) (mount ?b)))\<rparr>)]"
    by presburger
  then show ?thesis unfolding u .
qed

text \<open>
  The product request of the timeout is not always the only one: when the seed request
  settles between two changes that are 200 ms apart, two product requests are sent, and
  the first of them has no query parameters.
\<close>

theorem seed_in_burst_counterexample:
  "requests (run (API_BASE None)
      [SetQuery ''s'', Elapse 100, Settles 0 (Response 200 (JsonValue None)), Elapse 100,
       SetQuery ''sh'', Elapse 300] (mount (API_BASE None)))
   = [POST ''http://localhost:8000/api/seed'', GET ''http://localhost:8000/api/products?'',
      GET ''http://localhost:8000/api/products?q=sh'']"
  by code_simp

subsection \<open>Parsed responses\<close>








subsection \<open>The first seconds after mounting\<close>

lemma elapsed_append: "elapsed (es @ es') = elapsed es + elapsed es'"
  by (induction es) simp_all

lemma seed_settled_snoc:
  "seed_settled (es @ [e]) \<longleftrightarrow> seed_settled es \<or> (case e of Settles i r \<Rightarrow> i = 0 | _ \<Rightarrow> False)"
  by (auto simp: seed_settled_def)

lemma seed_settled_iff: "seed_settled es \<longleftrightarrow> (\<exists>r. Settles 0 r \<in> set es)"
  by (induction es) (auto simp: seed_settled_def split: event.splits)

lemma early_run:
  assumes "\<forall>r. Settles 0 r \<notin> set es" and "elapsed es < 300"
  shows "requests (run base es (mount base)) = [POST (seed_url base)]
    \<and> inflight (run base es (mount base)) = [0]
    \<and> now (run base es (mount base)) = elapsed es
    \<and> (\<exists>dl op. timer (run base es (mount base)) = Some (dl, op) \<and> 300 \<le> dl)"
  using assms
proof (induction es rule: rev_induct)
  case Nil
  show ?case by (simp add: mount_def debounce_def)
next
  case (snoc e es)
  let ?s = "run base es (mount base)"
  from snoc.prems have "\<forall>r. Settles 0 r \<notin> set es" and "elapsed es < 300"
    by (simp_all add: elapsed_append)
  with snoc.IH obtain dl op where s: "requests ?s = [POST (seed_url base)]" "inflight ?s = [0]"
    "now ?s = elapsed es" "timer ?s = Some (dl, op)" "300 \<le> dl"
    by auto
  have "requests (step base ?s e) = [POST (seed_url base)]
    \<and> inflight (step base ?s e) = [0]
    \<and> now (step base ?s e) = elapsed (es @ [e])
    \<and> (\<exists>dl op. timer (step base ?s e) = Some (dl, op) \<and> 300 \<le> dl)"
  proof (cases e)
    case (SetQuery v)
    then show ?thesis using s by (simp add: debounce_def elapsed_append)
  next
    case (SetCategory c)
    then show ?thesis using s by (simp add: debounce_def elapsed_append)
  next
    case (Elapse d)
    with snoc.prems(2) have "elapsed es + d < 300" by (simp add: elapsed_append)
    then show ?thesis using s Elapse by (simp add: elapse_def elapsed_append)
  next
    case (Settles i r)
    with snoc.prems(1) have "i \<noteq> 0" by auto
    then have "\<not> (i \<in> set (inflight ?s) \<and> i < length (requests ?s))" using s by simp
    then have "settles base i r ?s = ?s" unfolding settles_def by (rule if_not_P)
    then show ?thesis using s Settles by (simp add: elapsed_append)
  qed
  then show ?case by simp
qed

lemma mount_run:
  assumes "list_all (\<lambda>e. \<not> is_input e) es"
  shows "requests (run base es (mount base))
      = POST (seed_url base) #
        replicate ((if seed_settled es then 1 else 0) + (if 300 \<le> elapsed es then 1 else 0))
          (GET (base @ ''/api/products?''))
    \<and> (0 \<in> set (inflight (run base es (mount base))) \<longleftrightarrow> \<not> seed_settled es)
    \<and> timer (run base es (mount base))
        = (if 300 \<le> elapsed es then None
           else Some (300, \<lparr>opt_category = Some [], opt_q = Some []\<rparr>))
    \<and> now (run base es (mount base)) = elapsed es
    \<and> by_timeout base (mount base) es
        = (if 300 \<le> elapsed es then [GET (base @ ''/api/products?'')] else [])"
  using assms
proof (induction es rule: rev_induct)
  case Nil
  show ?case by (simp add: mount_def debounce_def seed_settled_def)
next
  case (snoc e es)
  let ?s = "run base es (mount base)"
  let ?u = "GET (base @ ''/api/products?'')"
  let ?k = "(if seed_settled es then 1 else 0) + (if 300 \<le> elapsed es then 1 else (0::nat))"
  from snoc have s: "requests ?s = POST (seed_url base) # replicate ?k ?u"
    "0 \<in> set (inflight ?s) \<longleftrightarrow> \<not> seed_settled es"
    "timer ?s = (if 300 \<le> elapsed es then None
           else Some (300, \<lparr>opt_category = Some [], opt_q = Some []\<rparr>))"
    "now ?s = elapsed es"
    "by_timeout base (mount base) es = (if 300 \<le> elapsed es then [?u] else [])"
    and ni: "\<not> is_input e"
    by simp_all
  have bt: "by_timeout base (mount base) (es @ [e])
      = by_timeout base (mount base) es @ (case e of Elapse d \<Rightarrow> sent base ?s e | _ \<Rightarrow> [])"
    by (simp add: by_timeout_append)
  have snocr: "replicate n ?u @ [?u] = replicate (Suc n) ?u" for n
    by (simp add: replicate_append_same)
  show ?case
  proof (cases e)
    case (SetQuery v)
    with ni show ?thesis by simp
  next
    case (SetCategory c)
    with ni show ?thesis by simp
  next
    case (Elapse d)
    have ss: "seed_settled (es @ [e]) = seed_settled es"
      using Elapse by (simp add: seed_settled_snoc)
    have el: "elapsed (es @ [e]) = elapsed es + d"
      using Elapse by (simp add: elapsed_append)
    show ?thesis
    proof (cases "300 \<le> elapsed es")
      case True
      then have "elapse base d ?s = ?s\<lparr>now := now ?s + d\<rparr>"
        using s(3) by (simp add: elapse_def)
      then show ?thesis using s True Elapse ss el bt by (simp add: sent_def)
    next
      case False
      show ?thesis
      proof (cases "300 \<le> elapsed es + d")
        case fire: True
        have "elapse base d ?s
          = (fetchProducts base \<lparr>opt_category = Some [], opt_q = Some []\<rparr> (?s\<lparr>timer := None\<rparr>))
              \<lparr>now := now ?s + d\<rparr>"
          using s(3,4) False fire by (simp add: elapse_def)
        then show ?thesis using s False fire Elapse ss el bt
          by (simp add: sent_def empty_url snocr)
      next
        case nofire: False
        have "elapse base d ?s = ?s\<lparr>now := now ?s + d\<rparr>"
          using s(3,4) False nofire by (simp add: elapse_def)
        then show ?thesis using s False nofire Elapse ss el bt by (simp add: sent_def)
      qed
    qed
  next
    case (Settles i r)
    have el: "elapsed (es @ [e]) = elapsed es"
      using Settles by (simp add: elapsed_append)
    have ss: "seed_settled (es @ [e]) \<longleftrightarrow> seed_settled es \<or> i = 0"
      using Settles by (simp add: seed_settled_snoc)
    have bt': "by_timeout base (mount base) (es @ [e]) = by_timeout base (mount base) es"
      using bt Settles by simp
    show ?thesis
    proof (cases "i \<in> set (inflight ?s) \<and> i < length (requests ?s)")
      case False
      then have st: "settles base i r ?s = ?s" unfolding settles_def by (rule if_not_P)
      have "seed_settled (es @ [e]) = seed_settled es"
      proof (cases "i = 0")
        case True
        with False s(1) have "0 \<notin> set (inflight ?s)" by simp
        with s(2) show ?thesis using ss by simp
      next
        case False
        then show ?thesis using ss by simp
      qed
      then show ?thesis using s st Settles el bt' by simp
    next
      case True
      show ?thesis
      proof (cases "i = 0")
        case i0: True
        with True s(2) have nss: "\<not> seed_settled es" by simp
        have "requests ?s ! 0 = POST (seed_url base)" using s(1) by simp
        with True i0 have st: "settles base i r ?s
            = fetchProducts base \<lparr>opt_category = None, opt_q = None\<rparr>
                (?s\<lparr>inflight := removeAll 0 (inflight ?s)\<rparr>)"
          by (simp add: settles_def)
        have "seed_settled (es @ [e])" using ss i0 by simp
        then show ?thesis using s st Settles el bt' nss
          by (simp add: empty_url snocr)
      next
        case inz: False
        with True s(1) have "requests ?s ! i = ?u"
          by (cases i) simp_all
        with True have aw: "awaiting_products ?s i" by (simp add: awaiting_products_def)
        have "seed_settled (es @ [e]) = seed_settled es" using ss inz by simp
        then show ?thesis using s Settles el bt' inz
          by (simp add: settles_products_fields [OF aw])
      qed
    qed
  qed
qed

lemma items_step:
  assumes "\<not> settles_parsed s e"
  shows "items (step base s e) = items s"
proof (cases e)
  case (SetQuery v)
  then show ?thesis by (simp add: debounce_def)
next
  case (SetCategory c)
  then show ?thesis by (simp add: debounce_def)
next
  case (Elapse d)
  then show ?thesis by (simp add: elapse_def split: option.splits)
next
  case (Settles i r)
  from settles_cases [of base i r s] show ?thesis
  proof (elim disjE)
    assume a: "awaiting_products s i"
    with assms Settles obtain err where "try_block r = Inl err"
      by (cases "try_block r") simp_all
    then show ?thesis using Settles a by (simp add: settles_products_fields)
  qed (simp_all add: Settles)
qed

lemma items_run:
  assumes "free_of settles_parsed base s es"
  shows "items (run base es s) = items s"
  using assms by (induction es arbitrary: s) (simp_all add: items_step)

text \<open>
  Claim C6, amended. Mounting sends exactly one seed request, and no run of events ever
  sends another. Whenever the seed request settles, and whatever the response or failure
  is, a product request with no query parameters is sent at that moment. The state after
  the settlement is the same for every outcome: the error message is empty, and the
  component writes nothing to the console. When the seed request settles less than 300 ms
  after mounting, no product request was sent before, so this one is the first. When it
  takes 300 ms or longer and the user changes nothing, the debounce timeout has already
  sent a product request with no query parameters while the seed request was in flight.
\<close>

theorem seed_then_fetch:
  assumes "\<forall>r. Settles 0 r \<notin> set es"
  shows "requests (mount base) = [POST (seed_url base)]
    \<and> filter is_POST (requests (run base es' (mount base))) = [POST (seed_url base)]
    \<and> requests (run base (es @ [Settles 0 r]) (mount base))
        = requests (run base es (mount base)) @ [GET (base @ ''/api/products?'')]
    \<and> awaiting_products (run base (es @ [Settles 0 r]) (mount base))
        (length (requests (run base es (mount base))))
    \<and> run base (es @ [Settles 0 r]) (mount base) = run base (es @ [Settles 0 r']) (mount base)
    \<and> error (run base (es @ [Settles 0 r]) (mount base)) = []
    \<and> console (run base (es @ [Settles 0 r]) (mount base)) = console (run base es (mount base))
    \<and> items (run base (es @ [Settles 0 r]) (mount base)) = items (run base es (mount base))
    \<and> (elapsed es < 300 \<longrightarrow>
         requests (run base es (mount base)) = [POST (seed_url base)]
       \<and> requests (run base (es @ [Settles 0 r]) (mount base))
           = [POST (seed_url base), GET (base @ ''/api/products?'')])
    \<and> (list_all (\<lambda>e. \<not> is_input e) es \<and> 300 \<le> elapsed es \<longrightarrow>
         requests (run base es (mount base))
           = [POST (seed_url base), GET (base @ ''/api/products?'')]
       \<and> by_timeout base (mount base) es = [GET (base @ ''/api/products?'')]
       \<and> 0 \<in> set (inflight (run base es (mount base)))
       \<and> requests (run base (es @ [Settles 0 r]) (mount base))
           = [POST (seed_url base), GET (base @ ''/api/products?''),
              GET (base @ ''/api/products?'')])"
proof -
  let ?s = "run base es (mount base)"
  have m: "requests (mount base) = [POST (seed_url base)]"
    by (simp add: mount_def debounce_def)
  have "seed_pending base (mount base)"
    by (simp add: seed_pending_def mount_def debounce_def)
  then have p: "seed_pending base ?s"
    using assms by (rule seed_pending_run)
  have 1: "filter is_POST (requests (run base es' (mount base))) = [POST (seed_url base)]"
    by (simp add: posts_run m)
  note st = seed_settles [OF p]
  have 2: "awaiting_products (settles base 0 r ?s) (length (requests ?s))"
    using awaiting_issued [of base "\<lparr>opt_category = None, opt_q = None\<rparr>"
        "?s\<lparr>inflight := removeAll 0 (inflight ?s)\<rparr>"]
    by (simp add: st)
  have 3: "settles base 0 r ?s = settles base 0 r' ?s"
    by (simp add: st)
  have 4: "requests (settles base 0 r ?s) = requests ?s @ [GET (base @ ''/api/products?'')]"
    "error (settles base 0 r ?s) = []" "console (settles base 0 r ?s) = console ?s"
    "items (settles base 0 r ?s) = items ?s"
    by (simp_all add: st empty_url)
  have 5: "run base (es @ [Settles 0 x]) (mount base) = settles base 0 x ?s" for x
    by simp
  have 6: "requests ?s = [POST (seed_url base)]
       \<and> requests (settles base 0 r ?s) = [POST (seed_url base), GET (base @ ''/api/products?'')]"
    if "elapsed es < 300"
    using early_run [OF assms that, of base] 4(1) by simp
  have ns: "\<not> seed_settled es" using assms by (simp add: seed_settled_iff)
  have 7: "requests ?s = [POST (seed_url base), GET (base @ ''/api/products?'')]
       \<and> by_timeout base (mount base) es = [GET (base @ ''/api/products?'')]
       \<and> 0 \<in> set (inflight ?s)
       \<and> requests (settles base 0 r ?s)
           = [POST (seed_url base), GET (base @ ''/api/products?''),
              GET (base @ ''/api/products?'')]"
    if "list_all (\<lambda>e. \<not> is_input e) es \<and> 300 \<le> elapsed es"
    using mount_run [of es base] that ns 4(1) by simp
  show ?thesis
    unfolding 5 using m 1 2 3 4 6 7 by blast
qed

theorem seed_then_fetch_witness:
  "requests (run ''http://localhost:8000'' [SetQuery ''a'', Elapse 120, Settles 0 NetworkError]
      (mount ''http://localhost:8000''))
   = [POST ''http://localhost:8000/api/seed'', GET ''http://localhost:8000/api/products?'']
   \<and> requests (run ''http://localhost:8000'' [Elapse 200, Elapse 150, Settles 0 NetworkError]
      (mount ''http://localhost:8000''))
   = [POST ''http://localhost:8000/api/seed'', GET ''http://localhost:8000/api/products?'',
      GET ''http://localhost:8000/api/products?'']"
proof -
  let ?b = "''http://localhost:8000''"
  have h1: "\<forall>r. Settles 0 r \<notin> set [SetQuery ''a'', Elapse 120]" by simp
  have e1: "elapsed [SetQuery ''a'', Elapse 120] < 300" by simp
  have h2: "\<forall>r. Settles 0 r \<notin> set [Elapse 200, Elapse 150]" by simp
  have e2: "list_all (\<lambda>e. \<not> is_input e) [Elapse 200, Elapse 150]
      \<and> 300 \<le> elapsed [Elapse 200, Elapse 150]" by simp
  from seed_then_fetch [OF h1, of ?b _ NetworkError] e1
  have "requests (run ?b ([SetQuery ''a'', Elapse 120] @ [Settles 0 NetworkError]) (mount ?b))
           = [POST (seed_url ?b), GET (?b @ ''/api/products?'')]"
    by blast
  moreover from seed_then_fetch [OF h2, of ?b _ NetworkError] e2
  have "requests (run ?b ([Elapse 200, Elapse 150] @ [Settles 0 NetworkError]) (mount ?b))
           = [POST (seed_url ?b), GET (?b @ ''/api/products?''), GET (?b @ ''/api/products?'')]"
    by blast
  ultimately show ?thesis by (simp add: seed_url_def del: run_simps)
qed

text \<open>
  When the seed request takes 300 ms, a product request is sent before it settles, and
  that request can settle and show the "no results" view while the seed request is still
  in flight.
\<close>

theorem slow_seed_counterexample:
  "requests (run (API_BASE None) [Elapse 300] (mount (API_BASE None)))
     = [POST ''http://localhost:8000/api/seed'', GET ''http://localhost:8000/api/products?'']
   \<and> seed_pending (API_BASE None) (run (API_BASE None) [Elapse 300] (mount (API_BASE None)))
   \<and> render (run (API_BASE None) [Elapse 300, Settles 1 (Response 200 (JsonValue (Some [])))]
        (mount (API_BASE None))) = [NoProductsFound]
   \<and> seed_pending (API_BASE None)
        (run (API_BASE None) [Elapse 300, Settles 1 (Response 200 (JsonValue (Some [])))]
          (mount (API_BASE None)))"
  by code_simp

text \<open>
  Claim C10, amended. Take any run after mounting without user input: time passes in any
  steps and requests settle in any order. The requests sent are the seed request, one
  product request once the seed request has settled, and one once 300 ms have passed, both
  without query parameters; the second of these is the one the timeout sends, exactly when
  300 ms have passed since mounting, and the first is sent by the event that settles the
  seed request. So after both, two product requests have been sent. The displayed item
  list is the one of the last settlement whose body parsed (to a value other than
  \<open>null\<close>); settlements that fail after it leave it alone, and it is empty while no
  body has parsed.
\<close>

theorem mount_two_fetches:
  assumes "list_all (\<lambda>e. \<not> is_input e) es"
  shows "requests (run base es (mount base))
      = POST (seed_url base) #
        replicate ((if seed_settled es then 1 else 0) + (if 300 \<le> elapsed es then 1 else 0))
          (GET (base @ ''/api/products?''))
    \<and> by_timeout base (mount base) es
        = (if 300 \<le> elapsed es then [GET (base @ ''/api/products?'')] else [])
    \<and> (es = es1 @ Settles 0 r0 # es2 \<and> \<not> seed_settled es1 \<longrightarrow>
         sent base (run base es1 (mount base)) (Settles 0 r0) = [GET (base @ ''/api/products?'')])
    \<and> (seed_settled es \<and> 300 \<le> elapsed es \<longrightarrow>
         requests (run base es (mount base))
           = [POST (seed_url base), GET (base @ ''/api/products?''),
              GET (base @ ''/api/products?'')])
    \<and> (es = es3 @ Settles i r # es4 \<and> awaiting_products (run base es3 (mount base)) i
        \<and> try_block r = Inr xs
        \<and> free_of settles_parsed base (run base (es3 @ [Settles i r]) (mount base)) es4 \<longrightarrow>
         items (run base es (mount base)) = xs)
    \<and> (free_of settles_parsed base (mount base) es \<longrightarrow> items (run base es (mount base)) = [])"
proof -
  let ?u = "GET (base @ ''/api/products?'')"
  note mr = mount_run [OF assms, of base]
  have 3: "sent base (run base es1 (mount base)) (Settles 0 r0) = [?u]"
    if "es = es1 @ Settles 0 r0 # es2 \<and> \<not> seed_settled es1"
  proof -
    let ?s = "run base es1 (mount base)"
    from that assms have "list_all (\<lambda>e. \<not> is_input e) es1" by simp
    from mount_run [OF this, of base] that
    have "0 \<in> set (inflight ?s)" "requests ?s \<noteq> []" "requests ?s ! 0 = POST (seed_url base)"
      by simp_all
    then have "seed_pending base ?s" by (simp add: seed_pending_def)
    from seed_settles [OF this, of r0] show ?thesis
      by (simp add: sent_def empty_url)
  qed
  have 4: "requests (run base es (mount base)) = [POST (seed_url base), ?u, ?u]"
    if "seed_settled es \<and> 300 \<le> elapsed es"
    using mr that by (simp add: numeral_2_eq_2)
  have 5: "items (run base es (mount base)) = xs"
    if "es = es3 @ Settles i r # es4 \<and> awaiting_products (run base es3 (mount base)) i
        \<and> try_block r = Inr xs
        \<and> free_of settles_parsed base (run base (es3 @ [Settles i r]) (mount base)) es4"
  proof -
    let ?s = "run base (es3 @ [Settles i r]) (mount base)"
    from that have "items ?s = xs" by (simp add: settles_products_fields)
    moreover from that have "items (run base es4 ?s) = items ?s" by (intro items_run) simp
    moreover from that have "run base es (mount base) = run base es4 ?s" by simp
    ultimately show ?thesis by simp
  qed
  have 6: "items (run base es (mount base)) = []"
    if "free_of settles_parsed base (mount base) es"
    using items_run [OF that] by (simp add: mount_def debounce_def)
  show ?thesis using mr 3 4 5 6 by blast
qed

theorem mount_two_fetches_witness:
  "items (run ''http://localhost:8000''
      [Elapse 100, Settles 0 NetworkError, Elapse 50,
       Settles 1 (Response 200 (JsonValue (Some [with_category ''B'']))), Elapse 150, Elapse 30,
       Settles 2 (Response 200 (JsonValue (Some [with_category ''A'']))), Elapse 5]
      (mount ''http://localhost:8000'')) = [with_category ''A'']
   \<and> requests (run ''http://localhost:8000''
      [Elapse 100, Settles 0 NetworkError, Elapse 50,
       Settles 1 (Response 200 (JsonValue (Some [with_category ''B'']))), Elapse 150, Elapse 30,
       Settles 2 (Response 200 (JsonValue (Some [with_category ''A'']))), Elapse 5]
      (mount ''http://localhost:8000''))
     = [POST ''http://localhost:8000/api/seed'', GET ''http://localhost:8000/api/products?'',
        GET ''http://localhost:8000/api/products?'']"
proof -
  let ?b = "''http://localhost:8000''"
  let ?rA = "Response 200 (JsonValue (Some [with_category ''A'']))"
  let ?es3 = "[Elapse 100, Settles 0 NetworkError, Elapse 50,
       Settles 1 (Response 200 (JsonValue (Some [with_category ''B'']))), Elapse 150, Elapse 30]"
  let ?es = "?es3 @ Settles 2 ?rA # [Elapse 5]"
  have n: "list_all (\<lambda>e. \<not> is_input e) ?es" by simp
  have a: "awaiting_products (run ?b ?es3 (mount ?b)) 2" by code_simp
  have t: "try_block ?rA = Inr [with_category ''A'']" by (simp add: try_block_def)
  have f: "free_of settles_parsed ?b (run ?b (?es3 @ [Settles 2 ?rA]) (mount ?b)) [Elapse 5]"
    by simp
  have s: "seed_settled ?es \<and> 300 \<le> elapsed ?es" by (simp add: seed_settled_def)
  from mount_two_fetches [OF n, of ?b _ _ _ ?es3 2 ?rA "[Elapse 5]" "[with_category ''A'']"] a t f s
  have "items (run ?b ?es (mount ?b)) = [with_category ''A'']
    \<and> requests (run ?b ?es (mount ?b)) = [POST (seed_url ?b), GET (?b @ ''/api/products?''),
              GET (?b @ ''/api/products?'')]"
    by blast
  then show ?thesis by (simp add: seed_url_def del: run_simps)
qed

text \<open>
  The request that settles last does not always determine the list: in two runs whose
  last settlement is the same network failure, the displayed lists differ, each being
  what the first settlement left.
\<close>

theorem last_settled_counterexample:
  "items (run (API_BASE None)
      [Elapse 100, Settles 0 (Response 200 (JsonValue None)), Elapse 200,
       Settles 1 (Response 200 (JsonValue (Some [with_category ''A'']))), Settles 2 NetworkError]
      (mount (API_BASE None)))
   \<noteq> items (run (API_BASE None)
      [Elapse 100, Settles 0 (Response 200 (JsonValue None)), Elapse 200,
       Settles 1 (Response 200 (JsonValue (Some []))), Settles 2 NetworkError]
      (mount (API_BASE None)))"
  by code_simp

end
